theory Spec2Isabelle
  imports Complex_Main
begin

section \<open>Vibrato analysis: a shallow embedding of the tracking pipeline\<close>

text \<open>
  The embedding follows \<^verbatim>\<open>util.py\<close>, \<^verbatim>\<open>acf_tracker.py\<close>, \<^verbatim>\<open>vibrato.py\<close> and
  \<^verbatim>\<open>rms_tracker.py\<close>. Arrays are lists, Python integers are \<open>int\<close> (or \<open>nat\<close> for
  sizes and indices that the code only ever produces non-negative), and every exception
  of the source is a value \<open>Inl e\<close> of a result type.

  Numbers. A numpy \<open>float64\<close> is modelled as \<open>npfloat\<close>: a finite value carried as an
  exact real, or one of the special values \<open>PInf\<close>, \<open>NInf\<close>, \<open>NaN\<close>. The arithmetic on
  special values is IEEE 754 as numpy applies it (a division by zero is a warning, not
  an exception, and yields an infinity or NaN; every comparison with NaN is false).
  Two things are abstracted: rounding and overflow of finite values (finite results are
  exact), and the sign of zero (a zero divisor is \<open>+0\<close>, which is what every zero
  divisor computed by the code is: a sum of squares, an array size, or a positive
  integer lag plus its negative).
\<close>

subsection \<open>Exceptions\<close>

text \<open>
  \<open>InvalidArgument\<close> is the error the specification names; the other three are the
  Python exceptions the code can raise.
\<close>

datatype error = InvalidArgument | ZeroDivisionError | ValueError | IndexError

subsection \<open>numpy floating point values\<close>

datatype npfloat = Fin real | PInf | NInf | NaN

fun np_neg :: "npfloat \<Rightarrow> npfloat" where
  "np_neg (Fin a) = Fin (- a)"
| "np_neg PInf = NInf"
| "np_neg NInf = PInf"
| "np_neg NaN = NaN"

fun np_add :: "npfloat \<Rightarrow> npfloat \<Rightarrow> npfloat" where
  "np_add (Fin a) (Fin b) = Fin (a + b)"
| "np_add (Fin a) PInf = PInf"
| "np_add (Fin a) NInf = NInf"
| "np_add PInf (Fin b) = PInf"
| "np_add PInf PInf = PInf"
| "np_add PInf NInf = NaN"
| "np_add NInf (Fin b) = NInf"
| "np_add NInf NInf = NInf"
| "np_add NInf PInf = NaN"
| "np_add NaN y = NaN"
| "np_add x NaN = NaN"

definition np_sub :: "npfloat \<Rightarrow> npfloat \<Rightarrow> npfloat" where
  "np_sub x y = np_add x (np_neg y)"

text \<open>The infinity with the sign of a real number; zero times infinity is NaN.\<close>

definition signed_inf :: "real \<Rightarrow> npfloat" where
  "signed_inf a = (if a = 0 then NaN else if 0 < a then PInf else NInf)"

fun np_mul :: "npfloat \<Rightarrow> npfloat \<Rightarrow> npfloat" where
  "np_mul (Fin a) (Fin b) = Fin (a * b)"
| "np_mul (Fin a) PInf = signed_inf a"
| "np_mul (Fin a) NInf = signed_inf (- a)"
| "np_mul PInf (Fin b) = signed_inf b"
| "np_mul NInf (Fin b) = signed_inf (- b)"
| "np_mul PInf PInf = PInf"
| "np_mul PInf NInf = NInf"
| "np_mul NInf PInf = NInf"
| "np_mul NInf NInf = PInf"
| "np_mul NaN y = NaN"
| "np_mul x NaN = NaN"

text \<open>
  Division as numpy does it: \<open>0 / 0\<close> is NaN, a non-zero value over zero is the
  infinity of its sign, a finite value over an infinity is zero.
\<close>

fun np_div :: "npfloat \<Rightarrow> npfloat \<Rightarrow> npfloat" where
  "np_div (Fin a) (Fin b) = (if b = 0 then signed_inf a else Fin (a / b))"
| "np_div (Fin a) PInf = Fin 0"
| "np_div (Fin a) NInf = Fin 0"
| "np_div PInf (Fin b) = (if 0 \<le> b then PInf else NInf)"
| "np_div NInf (Fin b) = (if 0 \<le> b then NInf else PInf)"
| "np_div PInf PInf = NaN"
| "np_div PInf NInf = NaN"
| "np_div NInf PInf = NaN"
| "np_div NInf NInf = NaN"
| "np_div NaN y = NaN"
| "np_div x NaN = NaN"

fun np_less :: "npfloat \<Rightarrow> npfloat \<Rightarrow> bool" where
  "np_less (Fin a) (Fin b) = (a < b)"
| "np_less (Fin a) PInf = True"
| "np_less NInf (Fin b) = True"
| "np_less NInf PInf = True"
| "np_less x y = False"

fun np_eq :: "npfloat \<Rightarrow> npfloat \<Rightarrow> bool" where
  "np_eq (Fin a) (Fin b) = (a = b)"
| "np_eq PInf PInf = True"
| "np_eq NInf NInf = True"
| "np_eq x y = False"

definition np_le :: "npfloat \<Rightarrow> npfloat \<Rightarrow> bool" where
  "np_le x y = (np_less x y \<or> np_eq x y)"

fun np_sqrt :: "npfloat \<Rightarrow> npfloat" where
  "np_sqrt (Fin a) = (if a < 0 then NaN else Fin (sqrt a))"
| "np_sqrt PInf = PInf"
| "np_sqrt NInf = NaN"
| "np_sqrt NaN = NaN"

fun is_nan :: "npfloat \<Rightarrow> bool" where
  "is_nan NaN = True"
| "is_nan x = False"

text \<open>\<^verbatim>\<open>np.sum\<close> and \<^verbatim>\<open>np.dot\<close> of one-dimensional arrays.\<close>

fun np_sum :: "npfloat list \<Rightarrow> npfloat" where
  "np_sum [] = Fin 0"
| "np_sum (v # vs) = np_add v (np_sum vs)"

definition np_dot :: "npfloat list \<Rightarrow> npfloat list \<Rightarrow> npfloat" where
  "np_dot xs ys = np_sum (map (\<lambda>(a, b). np_mul a b) (zip xs ys))"

text \<open>\<^verbatim>\<open>np.mean\<close>: the sum over the size; the mean of an empty array is \<open>0 / 0\<close>.\<close>

definition np_mean :: "npfloat list \<Rightarrow> npfloat" where
  "np_mean xs = np_div (np_sum xs) (Fin (real (length xs)))"

subsection \<open>Results, loops and Python indexing\<close>

text \<open>Sequencing of computations that may raise: the first exception is the result.\<close>

definition bind_result :: "error + 'a \<Rightarrow> ('a \<Rightarrow> error + 'b) \<Rightarrow> error + 'b" where
  "bind_result m k = (case m of Inl e \<Rightarrow> Inl e | Inr v \<Rightarrow> k v)"

text \<open>
  A \<^verbatim>\<open>for\<close> loop that fills a preallocated array, one entry per iteration, and stops
  at the first exception.
\<close>

fun map_result :: "('a \<Rightarrow> error + 'b) \<Rightarrow> 'a list \<Rightarrow> error + 'b list" where
  "map_result f [] = Inr []"
| "map_result f (x # xs) =
     bind_result (f x) (\<lambda>y. bind_result (map_result f xs) (\<lambda>ys. Inr (y # ys)))"

text \<open>
  A slice bound of Python: a negative bound counts from the end, and every bound is
  clipped to the array. \<^verbatim>\<open>xs[start:stop]\<close> never raises.
\<close>

definition slice_bound :: "nat \<Rightarrow> int \<Rightarrow> nat" where
  "slice_bound n i = (if i < 0 then nat (max 0 (int n + i)) else min n (nat i))"

definition py_slice :: "'a list \<Rightarrow> int \<Rightarrow> int \<Rightarrow> 'a list" where
  "py_slice xs start stop =
     (let a = slice_bound (length xs) start; b = slice_bound (length xs) stop
      in take (b - a) (drop a xs))"

text \<open>\<^verbatim>\<open>xs[i]\<close>: a negative index counts from the end; out of range raises.\<close>

definition py_get :: "'a list \<Rightarrow> int \<Rightarrow> error + 'a" where
  "py_get xs i =
     (let j = (if i < 0 then int (length xs) + i else i)
      in if 0 \<le> j \<and> j < int (length xs) then Inr (xs ! nat j) else Inl IndexError)"

subsection \<open>Utilities (\<^verbatim>\<open>util.py\<close>)\<close>

text \<open>
  \<^verbatim>\<open>xb[n] = x[start:stop]\<close> writes a slice into a row of width \<open>w\<close>: numpy accepts a
  slice of that width, broadcasts a slice of one element, and raises otherwise.
\<close>

definition assign_row :: "nat \<Rightarrow> npfloat list \<Rightarrow> error + npfloat list" where
  "assign_row w seg =
     (if length seg = w then Inr seg
      else if length seg = 1 then Inr (replicate w (hd seg))
      else Inl ValueError)"

text \<open>
  \<^verbatim>\<open>block_audio\<close>. \<^verbatim>\<open>x.size / hop_size\<close> is a division of Python integers and raises
  on a zero hop size; \<^verbatim>\<open>np.pad\<close> raises on a negative pad width and \<^verbatim>\<open>np.zeros\<close> on a
  negative number of rows; the time stamps are a numpy division.
\<close>

definition block_audio ::
  "npfloat list \<Rightarrow> int \<Rightarrow> int \<Rightarrow> real \<Rightarrow> error + (npfloat list list \<times> npfloat list)" where
  "block_audio x block_size hop_size fs =
     (if hop_size = 0 then Inl ZeroDivisionError
      else
        let num_blocks = \<lceil>real (length x) / real_of_int hop_size\<rceil> in
        if block_size < 0 then Inl ValueError
        else
          let x' = x @ replicate (nat block_size) (Fin 0) in
          if num_blocks < 0 then Inl ValueError
          else
            bind_result
              (map_result
                 (\<lambda>n. let start = int n * hop_size;
                          stop = min (int (length x')) (start + block_size)
                      in assign_row (nat block_size) (py_slice x' start stop))
                 [0..<nat num_blocks])
              (\<lambda>xb. Inr (xb,
                 map (\<lambda>n. np_div (Fin (real n * real_of_int hop_size)) (Fin fs))
                   [0..<nat num_blocks])))"

definition quadratic_interp :: "npfloat \<Rightarrow> npfloat \<Rightarrow> npfloat \<Rightarrow> npfloat" where
  "quadratic_interp a b c =
     (let denominator = np_add (np_sub a (np_mul (Fin 2) b)) c
      in if np_eq denominator (Fin 0) then Fin 0
         else np_div (np_mul (Fin (1 / 2)) (np_sub a c)) denominator)"

text \<open>
  The scipy functions the code calls are outside the repository; they are parameters of
  the model, collected in one record, and taken as functions that return. What they
  compute is never used: a property that depends on them states what it assumes.
\<close>

record scipy =
  medfilt :: "npfloat list \<Rightarrow> nat \<Rightarrow> npfloat list"
  buttord :: "real \<Rightarrow> real \<Rightarrow> real \<Rightarrow> real \<Rightarrow> real \<Rightarrow> nat \<times> real"
  butter :: "nat \<Rightarrow> real \<Rightarrow> real \<Rightarrow> real list \<times> real list"
  lfilter :: "real list \<Rightarrow> real list \<Rightarrow> npfloat list \<Rightarrow> npfloat list"

definition median_filter :: "scipy \<Rightarrow> npfloat list \<Rightarrow> nat \<Rightarrow> npfloat list" where
  "median_filter sp x n = medfilt sp x n"


text \<open>\<^verbatim>\<open>vibrato_fs\<close> (from \<^verbatim>\<open>vibrato.py\<close>): a division of Python numbers.\<close>

definition vibrato_fs :: "real \<Rightarrow> int \<Rightarrow> error + real" where
  "vibrato_fs fs hop_size =
     (if hop_size = 0 then Inl ZeroDivisionError else Inr (fs / real_of_int hop_size))"

text \<open>
  The class \<^verbatim>\<open>VibratoTrackerParams\<close>: its attributes (with the prefix \<open>p_\<close>, since
  \<open>block_size\<close>, \<open>hop_size\<close> and \<open>fs\<close> are also the parameters of most functions), the
  optional keyword arguments of its constructor, and the constructor. \<^verbatim>\<open>ceil\<close> is
  applied to the exact quotient and product; \<^verbatim>\<open>window_size / hop_denominator\<close> is a
  division of Python numbers and raises on zero.
\<close>

record VibratoTrackerParams =
  p_block_size :: int
  p_hop_size :: int
  p_fs :: real
  p_filter :: bool
  p_interpolate :: bool
  p_hop_denominator :: int
  p_window_duration :: real
  p_acf_fs :: real
  p_window_size :: int
  p_window_hop_size :: int




subsection \<open>The autocorrelation tracker (\<^verbatim>\<open>acf_tracker.py\<close>)\<close>

text \<open>
  \<^verbatim>\<open>np.correlate(a, v, "full")\<close>: entry \<open>j\<close> is the sum of \<open>a[n + k] * v[n]\<close> at lag
  \<open>k = j - (len v - 1)\<close>, over the \<open>n\<close> for which \<open>n + k\<close> is an index of \<open>a\<close>. numpy
  raises on an empty argument.
\<close>

definition correlate_lag :: "npfloat list \<Rightarrow> npfloat list \<Rightarrow> int \<Rightarrow> npfloat" where
  "correlate_lag a v k =
     np_sum (map (\<lambda>n. np_mul (a ! nat (int n + k)) (v ! n))
       (filter (\<lambda>n. 0 \<le> int n + k \<and> int n + k < int (length a)) [0..<length v]))"

definition np_correlate_full :: "npfloat list \<Rightarrow> npfloat list \<Rightarrow> error + npfloat list" where
  "np_correlate_full a v =
     (if a = [] \<or> v = [] then Inl ValueError
      else Inr (map (\<lambda>j. correlate_lag a v (int j - (int (length v) - 1)))
             [0..<length a + length v - 1]))"

definition comp_acf :: "npfloat list \<Rightarrow> bool \<Rightarrow> error + npfloat list" where
  "comp_acf x normalize' =
     (let norm = (if normalize' then np_dot x x else Fin 1)
      in bind_result (np_correlate_full x x) (\<lambda>correlation.
           let correlation =
                 py_slice correlation (int (length x) - 1) (int (length correlation))
           in Inr (map (\<lambda>c. np_div c norm) correlation)))"

text \<open>\<^verbatim>\<open>np.diff\<close>, \<^verbatim>\<open>np.where(...)[0]\<close> and \<^verbatim>\<open>np.argmax\<close>.\<close>

fun np_diff :: "npfloat list \<Rightarrow> npfloat list" where
  "np_diff (a # b # xs) = np_sub b a # np_diff (b # xs)"
| "np_diff xs = []"

definition np_where :: "bool list \<Rightarrow> nat list" where
  "np_where bs = filter (\<lambda>i. bs ! i) [0..<length bs]"

text \<open>
  The scan of numpy's \<^verbatim>\<open>argmax\<close> on doubles: the running maximum \<open>mp\<close> at index
  \<open>max_ind\<close> is replaced by an entry that is not below or equal to it, and the scan
  stops at the first NaN, which counts as maximal. An empty array raises.
\<close>

fun argmax_scan :: "npfloat \<Rightarrow> nat \<Rightarrow> nat \<Rightarrow> npfloat list \<Rightarrow> nat" where
  "argmax_scan mp max_ind i [] = max_ind"
| "argmax_scan mp max_ind i (v # vs) =
     (if \<not> np_le v mp
      then (if is_nan v then i else argmax_scan v i (Suc i) vs)
      else argmax_scan mp max_ind (Suc i) vs)"

definition np_argmax :: "npfloat list \<Rightarrow> error + nat" where
  "np_argmax xs =
     (case xs of [] \<Rightarrow> Inl ValueError
      | v # vs \<Rightarrow> Inr (if is_nan v then 0 else argmax_scan v 0 1 vs))"

definition get_f0_from_acf :: "npfloat list \<Rightarrow> real \<Rightarrow> bool \<Rightarrow> error + npfloat" where
  "get_f0_from_acf r fs interpolate =
     (let cutoff = 1;
          diffs = np_diff r;
          positive_diffs = np_where (map (\<lambda>d. np_less (Fin 0) d) diffs)
      in if length positive_diffs = 0 then Inr (Fin 0)
         else
           let cutoff_tmp = positive_diffs ! 0;
               cutoff = max cutoff cutoff_tmp
           in bind_result (np_argmax (py_slice r (int cutoff + 1) (int (length r))))
                (\<lambda>m. let f = m + cutoff + 1 in
                   if interpolate \<and> 0 < f then
                     bind_result (py_get r (int f - 1)) (\<lambda>a.
                     bind_result (py_get r (int f)) (\<lambda>b.
                     bind_result
                       (if f + 1 = length r then py_get r (int f)
                        else py_get r (int f + 1)) (\<lambda>c.
                     let adjustment = quadratic_interp a b c
                     in Inr (np_div (Fin fs) (np_add (Fin (real f)) adjustment)))))
                   else Inr (np_div (Fin fs) (Fin (real f)))))"

definition track_pitch_acf ::
  "npfloat list \<Rightarrow> int \<Rightarrow> int \<Rightarrow> real \<Rightarrow> bool \<Rightarrow> error + (npfloat list \<times> npfloat list)" where
  "track_pitch_acf x block_size hop_size fs interpolate =
     bind_result (block_audio x block_size hop_size fs) (\<lambda>(xb, t).
     bind_result
       (map_result
          (\<lambda>block. bind_result (comp_acf block True)
                      (\<lambda>r. get_f0_from_acf r fs interpolate))
          xb)
       (\<lambda>f0. Inr (f0, t)))"

subsection \<open>Vibrato (\<^verbatim>\<open>vibrato.py\<close>)\<close>

definition remove_mean :: "npfloat list \<Rightarrow> npfloat list \<times> npfloat" where
  "remove_mean x =
     (let mean = np_mean x;
          normalized = map (\<lambda>v. np_sub v (np_mean x)) x
      in (normalized, mean))"

definition vibrato_lpf :: "scipy \<Rightarrow> npfloat list \<Rightarrow> real \<Rightarrow> real \<Rightarrow> npfloat list" where
  "vibrato_lpf sp f0 acf_fs f_cutoff =
     (case buttord sp (f_cutoff * (9 / 10)) (f_cutoff * (11 / 10)) 3 100 acf_fs of
        (N, wn) \<Rightarrow>
          (case butter sp N wn acf_fs of
             (b, a) \<Rightarrow> lfilter sp b a f0))"

definition vibrato_frequency :: "npfloat list \<Rightarrow> real \<Rightarrow> bool \<Rightarrow> bool \<Rightarrow> error + npfloat" where
  "vibrato_frequency f0 acf_fs f0_is_normalized interpolate =
     (let f0 = (if \<not> f0_is_normalized then fst (remove_mean f0) else f0)
      in bind_result (comp_acf f0 True) (\<lambda>f0_r.
           get_f0_from_acf f0_r acf_fs interpolate))"

text \<open>
  The \<^verbatim>\<open>filter\<close> argument of \<^verbatim>\<open>compute_processed_f0\<close> is only tested for truth, and one
  caller passes an object that is not a boolean: a Python value here is a boolean or a
  builtin function, and every function object is true.
\<close>

datatype pyobj = PyBool bool | PyBuiltin string

fun truthy :: "pyobj \<Rightarrow> bool" where
  "truthy (PyBool b) = b"
| "truthy (PyBuiltin name) = True"

definition compute_processed_f0 ::
  "scipy \<Rightarrow> npfloat list \<Rightarrow> int \<Rightarrow> int \<Rightarrow> real \<Rightarrow> pyobj \<Rightarrow> bool
     \<Rightarrow> error + (npfloat list \<times> real)" where
  "compute_processed_f0 sp x block_size hop_size fs filter' interpolate =
     bind_result (track_pitch_acf x block_size hop_size fs interpolate) (\<lambda>(f0, t).
     bind_result (vibrato_fs fs hop_size) (\<lambda>acf_fs.
       let f0_norm = fst (remove_mean f0);
           f0_norm = (if truthy filter'
                      then vibrato_lpf sp (median_filter sp f0_norm 3) acf_fs 20
                      else f0_norm)
       in Inr (f0_norm, acf_fs)))"

definition find_vibrato_freq_from_f0 :: "npfloat list \<Rightarrow> real \<Rightarrow> bool \<Rightarrow> error + npfloat" where
  "find_vibrato_freq_from_f0 f0_norm acf_fs interpolate =
     vibrato_frequency f0_norm acf_fs True interpolate"

definition find_vibrato_freq ::
  "scipy \<Rightarrow> npfloat list \<Rightarrow> int \<Rightarrow> int \<Rightarrow> real \<Rightarrow> pyobj \<Rightarrow> bool \<Rightarrow> error + npfloat" where
  "find_vibrato_freq sp x block_size hop_size fs filter' interpolate =
     bind_result (compute_processed_f0 sp x block_size hop_size fs filter' interpolate)
       (\<lambda>(f0_norm, acf_fs). find_vibrato_freq_from_f0 f0_norm acf_fs interpolate)"

text \<open>
  \<^verbatim>\<open>track_vibrato_freq\<close>. The name \<^verbatim>\<open>filter\<close> in its call of \<^verbatim>\<open>compute_processed_f0\<close>
  is not bound in the function or the module, so it is Python's builtin function
  \<^verbatim>\<open>filter\<close>. \<^verbatim>\<open>np.zeros(num_windows)\<close> raises on a negative size, and the slices
  \<^verbatim>\<open>[:num_windows]\<close> count a negative bound from the end.
\<close>

definition track_vibrato_freq ::
  "scipy \<Rightarrow> npfloat list \<Rightarrow> VibratoTrackerParams \<Rightarrow> error + (npfloat list \<times> npfloat list)" where
  "track_vibrato_freq sp x params =
     (let block_size = p_block_size params;
          hop_size = p_hop_size params;
          fs = p_fs params
      in bind_result
           (compute_processed_f0 sp x block_size hop_size fs (PyBuiltin ''filter'')
              (p_interpolate params))
           (\<lambda>(f0, acf_fs).
              let f0_window_size = p_window_size params;
                  f0_hop_size = p_window_hop_size params;
                  hop_denominator = p_hop_denominator params
              in bind_result (block_audio f0 f0_window_size f0_hop_size acf_fs)
                   (\<lambda>(windows, times).
                      let cut_windows = hop_denominator - 1;
                          num_windows = int (length windows) - cut_windows;
                          times = py_slice times 0 num_windows;
                          windows = py_slice windows 0 num_windows
                      in if num_windows < 0 then Inl ValueError
                         else bind_result
                                (map_result
                                   (\<lambda>i. bind_result (py_get windows (int i)) (\<lambda>window.
                                          find_vibrato_freq_from_f0 window acf_fs True))
                                   [0..<nat num_windows])
                                (\<lambda>params. Inr (params, times)))))"

subsection \<open>The RMS tracker (\<^verbatim>\<open>rms_tracker.py\<close>)\<close>

definition epsilon :: npfloat where
  "epsilon = Fin (1 / 100000)"

definition block_rms :: "npfloat list \<Rightarrow> npfloat" where
  "block_rms x =
     (let rms = np_sqrt (np_div (np_dot x x) (Fin (real (length x))))
      in if np_less rms epsilon then epsilon else rms)"





subsection \<open>Notions used in the statements\<close>

text \<open>
  The first difference of \<open>r\<close> at index \<open>i\<close> exists and is strictly positive, as
  \<^verbatim>\<open>np.diff(r) > 0\<close> tests it.
\<close>

definition rising :: "npfloat list \<Rightarrow> nat \<Rightarrow> bool" where
  "rising r i = (Suc i < length r \<and> np_less (Fin 0) (np_sub (r ! Suc i) (r ! i)))"

text \<open>
  The lag of the peak locator after its interpolation step, for an integer lag \<open>f\<close>
  inside the vector: the code's \<^verbatim>\<open>f += adjustment\<close>.
\<close>

definition refined_lag :: "npfloat list \<Rightarrow> bool \<Rightarrow> nat \<Rightarrow> npfloat" where
  "refined_lag r interpolate f =
     (if interpolate
      then np_add (Fin (real f))
             (quadratic_interp (r ! (f - 1)) (r ! f)
                (if f + 1 = length r then r ! f else r ! (f + 1)))
      else Fin (real f))"


section \<open>Properties\<close>

subsection \<open>Sums of finite values\<close>

lemma np_sum_Fin: "np_sum (map (\<lambda>z. Fin (f z)) zs) = Fin (\<Sum>z\<leftarrow>zs. f z)"
  by (induction zs) simp_all

lemma np_dot_Fin: "np_dot (map Fin xs) (map Fin ys) = Fin (\<Sum>(a, b)\<leftarrow>zip xs ys. a * b)"
proof -
  have "map (\<lambda>(a, b). np_mul a b) (zip (map Fin xs) (map Fin ys)) =
        map (\<lambda>z. Fin (fst z * snd z)) (zip xs ys)"
    by (simp add: zip_map_map split_def)
  then show ?thesis by (simp add: np_dot_def np_sum_Fin split_def)
qed

lemma sum_squares_nonneg: "0 \<le> (\<Sum>(a, b)\<leftarrow>zip xs xs. a * b :: real)"
  by (induction xs) simp_all

lemma sum_squares_zero:
  "\<forall>v\<in>set xs. v = (0::real) \<Longrightarrow> (\<Sum>(a, b)\<leftarrow>zip xs xs. a * b) = 0"
  by (induction xs) simp_all

subsection \<open>The RMS floor\<close>

text \<open>
  Claim C9. On every block of at least one finite sample, \<^verbatim>\<open>block_rms\<close> returns a
  finite value that is at least \<open>1e-5\<close>, and on an all-zero block it returns exactly
  \<open>1e-5\<close>. A block is a row of the block matrix and has \<open>block_size \<ge> 1\<close> entries; on
  the array of size zero the code divides by \<^verbatim>\<open>x.size = 0\<close> and the result is NaN.
\<close>

theorem block_rms_floor:
  assumes "xs \<noteq> []"
  shows "(\<exists>a. block_rms (map Fin xs) = Fin a \<and> 1 / 100000 \<le> a) \<and>
         ((\<forall>v\<in>set xs. v = 0) \<longrightarrow> block_rms (map Fin xs) = Fin (1 / 100000))"
proof -
  let ?e = "\<Sum>(a, b)\<leftarrow>zip xs xs. a * b"
  let ?n = "real (length xs)"
  have n: "?n \<noteq> 0" using assms by simp
  have q: "0 \<le> ?e / ?n" using sum_squares_nonneg[of xs] by simp
  have rms: "np_sqrt (np_div (np_dot (map Fin xs) (map Fin xs))
               (Fin (real (length (map Fin xs))))) = Fin (sqrt (?e / ?n))"
    using n q by (simp add: np_dot_Fin)
  have 1: "\<exists>a. block_rms (map Fin xs) = Fin a \<and> 1 / 100000 \<le> a"
  proof (cases "sqrt (?e / ?n) < 1 / 100000")
    case True
    then have "block_rms (map Fin xs) = Fin (1 / 100000)"
      unfolding block_rms_def Let_def rms epsilon_def by simp
    then show ?thesis by (intro exI[of _ "1 / 100000"]) simp
  next
    case False
    then have "block_rms (map Fin xs) = Fin (sqrt (?e / ?n))"
      unfolding block_rms_def Let_def rms epsilon_def by simp
    with False show ?thesis by simp
  qed
  have 2: "block_rms (map Fin xs) = Fin (1 / 100000)" if "\<forall>v\<in>set xs. v = 0"
    unfolding block_rms_def Let_def rms epsilon_def
    using sum_squares_zero[OF that] by simp
  from 1 2 show ?thesis by blast
qed

theorem block_rms_floor_witness:
  "block_rms [Fin 0, Fin 0, Fin 0] = Fin (1 / 100000)"
  using block_rms_floor[of "[0, 0, 0]"] by simp

subsection \<open>Results and loops\<close>

lemma bind_result_Inr [simp]: "bind_result (Inr v) k = k v"
  by (simp add: bind_result_def)

lemma bind_result_Inl [simp]: "bind_result (Inl e) k = Inl e"
  by (simp add: bind_result_def)

lemma map_result_Inr:
  "(\<And>x. x \<in> set xs \<Longrightarrow> f x = Inr (g x)) \<Longrightarrow> map_result f xs = Inr (map g xs)"
  by (induction xs) simp_all

lemma map_result_length: "map_result f xs = Inr ys \<Longrightarrow> length ys = length xs"
proof (induction xs arbitrary: ys)
  case Nil
  then show ?case by simp
next
  case (Cons x xs)
  then show ?case
    by (auto simp: bind_result_def split: sum.splits)
qed

subsection \<open>Blocking\<close>

lemma block_index_in_signal:
  assumes "1 \<le> (h::int)" and "n < nat \<lceil>real l / real_of_int h\<rceil>"
  shows "n * nat h < l"
proof -
  have "int n < \<lceil>real l / real_of_int h\<rceil>" using assms(2) by linarith
  then have "real n < real l / real_of_int h" by (simp add: less_ceiling_iff)
  then have "real n * real_of_int h < real l" using assms(1) by (simp add: pos_less_divide_eq)
  then have "real_of_int (int n * h) < real_of_int (int l)" by simp
  then have "int n * h < int l" by (simp only: of_int_less_iff)
  moreover have "int (n * nat h) = int n * h" using assms(1) by simp
  ultimately show ?thesis by linarith
qed

lemma slice_bound_nat: "k \<le> n \<Longrightarrow> slice_bound n (int k) = k"
  by (simp add: slice_bound_def)

lemma block_row_slice:
  assumes "1 \<le> (h::int)" and "0 \<le> (b::int)" and "n * nat h < length x"
  shows "assign_row (nat b)
           (py_slice (x @ replicate (nat b) (Fin 0)) (int n * h)
              (min (int (length (x @ replicate (nat b) (Fin 0)))) (int n * h + b))) =
         Inr (take (nat b) (drop (n * nat h) (x @ replicate (nat b) (Fin 0))))"
proof -
  define x' where "x' = x @ replicate (nat b) (Fin 0)"
  define k where "k = n * nat h"
  have len: "length x' = length x + nat b" by (simp add: x'_def)
  have nh: "int n * h = int k" using assms(1) by (simp add: k_def)
  have kl: "k < length x" using assms(3) by (simp add: k_def)
  have m: "min (int (length x')) (int k + b) = int (k + nat b)"
    using assms(2) kl len by simp
  have lo: "slice_bound (length x') (int k) = k"
    by (rule slice_bound_nat) (use kl len in simp)
  have hi: "slice_bound (length x') (int (k + nat b)) = k + nat b"
    by (rule slice_bound_nat) (use kl len in simp)
  have s: "py_slice x' (int n * h) (min (int (length x')) (int n * h + b)) =
           take (nat b) (drop k x')"
    unfolding nh m py_slice_def Let_def lo hi by simp
  have "length (take (nat b) (drop k x')) = nat b"
    using kl len by simp
  then have "assign_row (nat b) (take (nat b) (drop k x')) = Inr (take (nat b) (drop k x'))"
    by (simp add: assign_row_def)
  then show ?thesis unfolding s x'_def[symmetric] k_def[symmetric] .
qed

lemma block_audio_eq:
  assumes "1 \<le> hop_size" and "0 \<le> block_size"
  shows "block_audio x block_size hop_size fs =
           Inr (map (\<lambda>n. take (nat block_size)
                            (drop (n * nat hop_size) (x @ replicate (nat block_size) (Fin 0))))
                  [0..<nat \<lceil>real (length x) / real_of_int hop_size\<rceil>],
                map (\<lambda>n. np_div (Fin (real n * real_of_int hop_size)) (Fin fs))
                  [0..<nat \<lceil>real (length x) / real_of_int hop_size\<rceil>])"
proof -
  have "0 \<le> real (length x) / real_of_int hop_size" using assms(1) by simp
  then have "0 \<le> \<lceil>real (length x) / real_of_int hop_size\<rceil>" by (simp add: zero_le_ceiling)
  then have c: "hop_size \<noteq> 0" "\<not> block_size < 0"
      "\<not> \<lceil>real (length x) / real_of_int hop_size\<rceil> < 0"
    using assms by simp_all
  have rows: "map_result
                 (\<lambda>n. assign_row (nat block_size)
                        (py_slice (x @ replicate (nat block_size) (Fin 0)) (int n * hop_size)
                           (min (int (length (x @ replicate (nat block_size) (Fin 0))))
                              (int n * hop_size + block_size))))
                 [0..<nat \<lceil>real (length x) / real_of_int hop_size\<rceil>] =
               Inr (map (\<lambda>n. take (nat block_size)
                            (drop (n * nat hop_size) (x @ replicate (nat block_size) (Fin 0))))
                  [0..<nat \<lceil>real (length x) / real_of_int hop_size\<rceil>])"
  proof (rule map_result_Inr)
    fix n assume "n \<in> set [0..<nat \<lceil>real (length x) / real_of_int hop_size\<rceil>]"
    then have "n < nat \<lceil>real (length x) / real_of_int hop_size\<rceil>" by simp
    from block_index_in_signal[OF assms(1) this] have "n * nat hop_size < length x" .
    from block_row_slice[OF assms this]
    show "assign_row (nat block_size)
            (py_slice (x @ replicate (nat block_size) (Fin 0)) (int n * hop_size)
               (min (int (length (x @ replicate (nat block_size) (Fin 0))))
                  (int n * hop_size + block_size))) =
          Inr (take (nat block_size)
                 (drop (n * nat hop_size) (x @ replicate (nat block_size) (Fin 0))))" .
  qed
  show ?thesis
    unfolding block_audio_def Let_def
    by (simp only: c if_False rows bind_result_Inr)
qed

text \<open>
  Claim C6. For a hop size of at least one, any block size and a positive sample rate,
  \<^verbatim>\<open>block_audio\<close> returns \<open>ceil(L / H)\<close> blocks and as many time stamps; block \<open>n\<close> is
  the slice \<open>[n * H, n * H + B)\<close> of the signal padded on the right with \<open>B\<close> zeros, and
  time stamp \<open>i\<close> is \<open>i * H / fs\<close>.
\<close>

theorem block_audio_blocks:
  assumes "1 \<le> hop_size" and "0 \<le> block_size" and "0 < fs"
  shows "\<exists>xb t. block_audio x block_size hop_size fs = Inr (xb, t) \<and>
           length xb = nat \<lceil>real (length x) / real_of_int hop_size\<rceil> \<and>
           length t = length xb \<and>
           (\<forall>n<length xb. xb ! n =
              take (nat block_size)
                (drop (n * nat hop_size) (x @ replicate (nat block_size) (Fin 0)))) \<and>
           (\<forall>i<length t. t ! i = Fin (real i * real_of_int hop_size / fs))"
proof -
  have d: "np_div (Fin a) (Fin fs) = Fin (a / fs)" for a using assms(3) by simp
  show ?thesis
    unfolding block_audio_eq[OF assms(1,2)] d by simp
qed


theorem block_audio_blocks_witness:
  "\<exists>xb t. block_audio [Fin 1, Fin 2, Fin 3] 2 2 1 = Inr (xb, t) \<and>
      length xb = 2 \<and> length t = 2 \<and>
      xb ! 1 = [Fin 3, Fin 0] \<and> t ! 1 = Fin 2"
proof -
  have c: "nat \<lceil>real (length [Fin 1, Fin 2, Fin 3]) / real_of_int 2\<rceil> = 2"
    by (simp add: ceiling_eq_iff)
  from block_audio_blocks[of 2 2 1 "[Fin 1, Fin 2, Fin 3]"]
  obtain xb t where r: "block_audio [Fin 1, Fin 2, Fin 3] 2 2 1 = Inr (xb, t)"
    and l: "length xb = 2" "length t = length xb"
    and b: "\<forall>n<length xb. xb ! n =
              take (nat 2) (drop (n * nat 2) ([Fin 1, Fin 2, Fin 3] @ replicate (nat 2) (Fin 0)))"
    and ts: "\<forall>i<length t. t ! i = Fin (real i * real_of_int 2 / 1)"
    unfolding c by auto
  from b l have "xb ! 1 = [Fin 3, Fin 0]" by (simp add: eval_nat_numeral)
  moreover from ts l have "t ! 1 = Fin 2" by simp
  ultimately show ?thesis using r l by simp
qed

subsection \<open>The peak locator\<close>

lemma length_np_diff [simp]: "length (np_diff r) = length r - 1"
  by (induction r rule: np_diff.induct) simp_all

lemma nth_np_diff: "Suc i < length r \<Longrightarrow> np_diff r ! i = np_sub (r ! Suc i) (r ! i)"
proof (induction r arbitrary: i rule: np_diff.induct)
  case (1 a b xs)
  then show ?case by (cases i) simp_all
qed simp_all

lemma filter_upt_empty: "(\<forall>i<n. \<not> P i) \<Longrightarrow> filter P [0..<n] = []"
  by (simp add: filter_empty_conv)

lemma filter_upt_first:
  assumes "i < n" and "P i" and "\<forall>j<i. \<not> P j"
  shows "filter P [0..<n] \<noteq> [] \<and> filter P [0..<n] ! 0 = i"
proof -
  have "[0..<i + (n - i)] = [0..<i] @ [i..<i + (n - i)]"
    by (rule upt_add_eq_append) simp
  then have "[0..<n] = [0..<i] @ i # [Suc i..<n]"
    using assms(1) by (simp add: upt_conv_Cons)
  moreover have "filter P [0..<i] = []" using assms(3) by (simp add: filter_empty_conv)
  ultimately have "filter P [0..<n] = i # filter P [Suc i..<n]"
    using assms(2) by simp
  then show ?thesis by simp
qed

lemma positive_diffs_filter:
  "np_where (map (\<lambda>d. np_less (Fin 0) d) (np_diff r)) = filter (rising r) [0..<length r - 1]"
  unfolding np_where_def
  by (rule filter_cong) (auto simp: rising_def nth_np_diff)


lemma argmax_scan_bound:
  "max_ind < i \<Longrightarrow> argmax_scan mp max_ind i vs < i + length vs"
proof (induction vs arbitrary: mp max_ind i)
  case Nil
  then show ?case by simp
next
  case (Cons v vs)
  have a: "argmax_scan v i (Suc i) vs < Suc i + length vs" by (rule Cons.IH) simp
  have b: "argmax_scan mp max_ind (Suc i) vs < Suc i + length vs"
    by (rule Cons.IH) (use Cons.prems in simp)
  show ?case using a b by simp
qed

lemma np_argmax_Nil [simp]: "np_argmax [] = Inl ValueError"
  by (simp add: np_argmax_def)

lemma np_argmax_nonempty:
  assumes "xs \<noteq> []"
  shows "\<exists>m. np_argmax xs = Inr m \<and> m < length xs"
proof -
  from assms obtain v vs where xs: "xs = v # vs" by (cases xs) auto
  have "argmax_scan v 0 1 vs < 1 + length vs" by (rule argmax_scan_bound) simp
  then show ?thesis by (simp add: xs np_argmax_def)
qed

text \<open>On finite values \<^verbatim>\<open>np.argmax\<close> is the first index of the maximum.\<close>

lemma np_le_Fin [simp]: "np_le (Fin a) (Fin b) \<longleftrightarrow> a \<le> b"
  by (auto simp: np_le_def)

lemma argmax_scan_first_max:
  assumes "mi < length ys" and "ys ! mi = mp" and "\<forall>j<length ys. ys ! j \<le> mp"
    and "\<forall>j<mi. ys ! j < mp"
  shows "argmax_scan (Fin mp) mi (length ys) (map Fin vs) < length (ys @ vs) \<and>
         (\<forall>j<length (ys @ vs).
            (ys @ vs) ! j \<le> (ys @ vs) ! argmax_scan (Fin mp) mi (length ys) (map Fin vs)) \<and>
         (\<forall>j<argmax_scan (Fin mp) mi (length ys) (map Fin vs).
            (ys @ vs) ! j < (ys @ vs) ! argmax_scan (Fin mp) mi (length ys) (map Fin vs))"
  using assms
proof (induction vs arbitrary: ys mi mp)
  case Nil
  then show ?case by simp
next
  case (Cons v vs)
  have app: "(ys @ [v]) @ vs = ys @ v # vs" by simp
  have len: "Suc (length ys) = length (ys @ [v])" by simp
  show ?case
  proof (cases "v \<le> mp")
    case True
    have "argmax_scan (Fin mp) mi (length (ys @ [v])) (map Fin vs) < length ((ys @ [v]) @ vs) \<and>
         (\<forall>j<length ((ys @ [v]) @ vs).
            ((ys @ [v]) @ vs) ! j \<le> ((ys @ [v]) @ vs) ! argmax_scan (Fin mp) mi (length (ys @ [v])) (map Fin vs)) \<and>
         (\<forall>j<argmax_scan (Fin mp) mi (length (ys @ [v])) (map Fin vs).
            ((ys @ [v]) @ vs) ! j < ((ys @ [v]) @ vs) ! argmax_scan (Fin mp) mi (length (ys @ [v])) (map Fin vs))"
    proof (rule Cons.IH)
      show "mi < length (ys @ [v])" using Cons.prems(1) by simp
      show "(ys @ [v]) ! mi = mp" using Cons.prems(1,2) by (simp add: nth_append)
      show "\<forall>j<length (ys @ [v]). (ys @ [v]) ! j \<le> mp"
        using Cons.prems(3) True by (auto simp: nth_append less_Suc_eq)
      show "\<forall>j<mi. (ys @ [v]) ! j < mp"
        using Cons.prems(1,4) by (auto simp: nth_append)
    qed
    then show ?thesis unfolding app len[symmetric] using True by simp
  next
    case False
    have "argmax_scan (Fin v) (length ys) (length (ys @ [v])) (map Fin vs) < length ((ys @ [v]) @ vs) \<and>
         (\<forall>j<length ((ys @ [v]) @ vs).
            ((ys @ [v]) @ vs) ! j \<le> ((ys @ [v]) @ vs) ! argmax_scan (Fin v) (length ys) (length (ys @ [v])) (map Fin vs)) \<and>
         (\<forall>j<argmax_scan (Fin v) (length ys) (length (ys @ [v])) (map Fin vs).
            ((ys @ [v]) @ vs) ! j < ((ys @ [v]) @ vs) ! argmax_scan (Fin v) (length ys) (length (ys @ [v])) (map Fin vs))"
    proof (rule Cons.IH)
      show "length ys < length (ys @ [v])" by simp
      show "(ys @ [v]) ! length ys = v" by simp
      show "\<forall>j<length (ys @ [v]). (ys @ [v]) ! j \<le> v"
        using Cons.prems(3) False by (fastforce simp: nth_append less_Suc_eq)
      show "\<forall>j<length ys. (ys @ [v]) ! j < v"
        using Cons.prems(3) False by (fastforce simp: nth_append)
    qed
    then show ?thesis unfolding app len[symmetric] using False by simp
  qed
qed

lemma np_argmax_first_max:
  assumes "np_argmax (map Fin xs) = Inr m"
  shows "m < length xs \<and> (\<forall>j<length xs. xs ! j \<le> xs ! m) \<and> (\<forall>j<m. xs ! j < xs ! m)"
proof (cases xs)
  case Nil
  with assms show ?thesis by simp
next
  case (Cons x xs')
  have m: "m = argmax_scan (Fin x) 0 (length [x]) (map Fin xs')"
    using assms by (simp add: Cons np_argmax_def)
  from argmax_scan_first_max[of 0 "[x]" x xs'] show ?thesis
    unfolding m Cons by simp
qed

lemma py_get_nat: "j < length xs \<Longrightarrow> py_get xs (int j) = Inr (xs ! j)"
  by (simp add: py_get_def)

lemma py_slice_tail: "c \<le> length xs \<Longrightarrow> py_slice xs (int c) (int (length xs)) = drop c xs"
  by (simp add: py_slice_def slice_bound_nat)

lemma get_f0_no_peak:
  assumes "\<forall>i. \<not> rising r i"
  shows "get_f0_from_acf r fs interpolate = Inr (Fin 0)"
proof -
  have "filter (rising r) [0..<length r - 1] = []"
    using assms by (simp add: filter_empty_conv)
  then show ?thesis
    unfolding get_f0_from_acf_def Let_def positive_diffs_filter by simp
qed

lemma get_f0_search:
  assumes "rising r i" and "\<forall>j<i. \<not> rising r j"
  shows "get_f0_from_acf r fs interpolate =
           bind_result (np_argmax (drop (max 1 i + 1) r))
             (\<lambda>m. Inr (np_div (Fin fs) (refined_lag r interpolate (m + max 1 i + 1))))"
proof -
  have "Suc i < length r" using assms(1) by (simp add: rising_def)
  then have i: "i < length r - 1" by linarith
  from filter_upt_first[OF i assms(1) assms(2)]
  have pd: "length (filter (rising r) [0..<length r - 1]) \<noteq> 0"
    and hd: "filter (rising r) [0..<length r - 1] ! 0 = i" by simp_all
  have c: "max 1 i + 1 \<le> length r" using i by simp
  have sl: "py_slice r (int (max 1 i) + 1) (int (length r)) = drop (max 1 i + 1) r"
    using py_slice_tail[OF c] by (simp add: add.commute)
  have step: "get_f0_from_acf r fs interpolate =
      bind_result (np_argmax (drop (max 1 i + 1) r))
        (\<lambda>m. let f = m + max 1 i + 1 in
           if interpolate \<and> 0 < f then
             bind_result (py_get r (int f - 1)) (\<lambda>a.
             bind_result (py_get r (int f)) (\<lambda>b.
             bind_result
               (if f + 1 = length r then py_get r (int f)
                else py_get r (int f + 1)) (\<lambda>c.
             let adjustment = quadratic_interp a b c
             in Inr (np_div (Fin fs) (np_add (Fin (real f)) adjustment)))))
           else Inr (np_div (Fin fs) (Fin (real f))))"
    unfolding get_f0_from_acf_def
    by (simp only: Let_def positive_diffs_filter pd hd if_False sl)
  show ?thesis
  proof (cases "drop (max 1 i + 1) r = []")
    case True
    then show ?thesis unfolding step by simp
  next
    case False
    from np_argmax_nonempty[OF False] obtain m
      where m: "np_argmax (drop (max 1 i + 1) r) = Inr m"
        and ml: "m < length (drop (max 1 i + 1) r)" by blast
    define f where "f = m + max 1 i + 1"
    have fl: "f < length r" and f1: "f - 1 < length r" and f0: "0 < f"
      using ml by (simp_all add: f_def)
    have g0: "py_get r (int f) = Inr (r ! f)" by (rule py_get_nat[OF fl])
    have g1: "py_get r (int f - 1) = Inr (r ! (f - 1))"
      using py_get_nat[OF f1] f0 by (simp add: of_nat_diff)
    have g2: "f + 1 \<noteq> length r \<Longrightarrow> py_get r (int f + 1) = Inr (r ! (f + 1))"
      using py_get_nat[of "f + 1" r] fl by (simp add: add.commute)
    show ?thesis
      unfolding step m bind_result_Inr f_def[symmetric] Let_def refined_lag_def
      using g0 g1 g2 f0 by simp
  qed
qed

lemma first_rising:
  assumes "rising r i"
  obtains i0 where "rising r i0" and "\<forall>j<i0. \<not> rising r j"
proof -
  define i0 where "i0 = (LEAST k. rising r k)"
  have "rising r i0" unfolding i0_def using assms by (rule LeastI)
  moreover have "\<forall>j<i0. \<not> rising r j" unfolding i0_def using not_less_Least by blast
  ultimately show ?thesis using that by blast
qed

text \<open>
  Claim C10. When some first difference is strictly positive, so that the early return
  is not taken, either the search slice is empty and no lag is computed (a vector of
  two entries, on which \<^verbatim>\<open>np.argmax\<close> raises), or the integer lag \<open>f\<close> is at least 2
  and inside the vector; without interpolation the result is then the finite quotient
  \<open>fs / f\<close>, a division by a non-zero number.
\<close>

theorem peak_lag_at_least_two:
  assumes "Suc i < length r" and "np_less (Fin 0) (np_sub (r ! Suc i) (r ! i))"
  shows "(length r = 2 \<and> get_f0_from_acf r fs interpolate = Inl ValueError) \<or>
         (\<exists>f. 2 \<le> f \<and> f < length r \<and>
            get_f0_from_acf r fs interpolate =
              Inr (if interpolate
                   then np_div (Fin fs)
                          (np_add (Fin (real f))
                             (quadratic_interp (r ! (f - 1)) (r ! f)
                                (if f + 1 = length r then r ! f else r ! (f + 1))))
                   else Fin (fs / real f)))"
proof -
  have "rising r i" using assms by (simp add: rising_def)
  then obtain i0 where ri: "rising r i0" and first: "\<forall>j<i0. \<not> rising r j"
    by (rule first_rising)
  have i0: "Suc i0 < length r" using ri by (simp add: rising_def)
  show ?thesis
  proof (cases "drop (max 1 i0 + 1) r = []")
    case True
    then have "length r = 2" using i0 by simp
    moreover have "get_f0_from_acf r fs interpolate = Inl ValueError"
      unfolding get_f0_search[OF ri first] True by simp
    ultimately show ?thesis by blast
  next
    case False
    from np_argmax_nonempty[OF False] obtain m
      where m: "np_argmax (drop (max 1 i0 + 1) r) = Inr m"
        and ml: "m < length (drop (max 1 i0 + 1) r)" by blast
    define f where "f = m + max 1 i0 + 1"
    have f2: "2 \<le> f" and fl: "f < length r" using ml by (simp_all add: f_def)
    have "get_f0_from_acf r fs interpolate = Inr (np_div (Fin fs) (refined_lag r interpolate f))"
      unfolding get_f0_search[OF ri first] m f_def by simp
    moreover have "np_div (Fin fs) (Fin (real f)) = Fin (fs / real f)" using f2 by simp
    ultimately have "get_f0_from_acf r fs interpolate =
              Inr (if interpolate
                   then np_div (Fin fs)
                          (np_add (Fin (real f))
                             (quadratic_interp (r ! (f - 1)) (r ! f)
                                (if f + 1 = length r then r ! f else r ! (f + 1))))
                   else Fin (fs / real f))"
      by (simp add: refined_lag_def)
    with f2 fl show ?thesis by blast
  qed
qed

theorem peak_lag_at_least_two_witness:
  "(length [Fin 1, Fin (1 / 2), Fin (4 / 5), Fin (1 / 5)] = 2 \<and>
    get_f0_from_acf [Fin 1, Fin (1 / 2), Fin (4 / 5), Fin (1 / 5)] 10 False = Inl ValueError) \<or>
   (\<exists>f. 2 \<le> f \<and> f < length [Fin 1, Fin (1 / 2), Fin (4 / 5), Fin (1 / 5)] \<and>
      get_f0_from_acf [Fin 1, Fin (1 / 2), Fin (4 / 5), Fin (1 / 5)] 10 False =
        Inr (Fin (10 / real f)))"
  using peak_lag_at_least_two[of 1 "[Fin 1, Fin (1 / 2), Fin (4 / 5), Fin (1 / 5)]" 10 False]
  by (simp add: np_sub_def)


subsection \<open>Autocorrelation\<close>

lemma comp_acf_Nil [simp]: "comp_acf [] nrm = Inl ValueError"
  by (simp add: comp_acf_def np_correlate_full_def)

lemma comp_acf_eq:
  assumes "x \<noteq> []"
  shows "comp_acf x nrm =
           Inr (map (\<lambda>k. np_div (correlate_lag x x (int k))
                         (if nrm then np_dot x x else Fin 1))
                  [0..<length x])"
proof -
  define N where "N = length x"
  define g where "g = (\<lambda>j. correlate_lag x x (int j - (int N - 1)))"
  have N: "0 < N" using assms by (simp add: N_def)
  have full: "np_correlate_full x x = Inr (map g [0..<N + N - 1])"
    using assms by (simp add: np_correlate_full_def g_def N_def)
  have lo: "slice_bound (N + N - 1) (int N - 1) = N - 1"
    using slice_bound_nat[of "N - 1" "N + N - 1"] N by (simp add: of_nat_diff)
  have hi: "slice_bound (N + N - 1) (int (N + N - 1)) = N + N - 1"
    by (rule slice_bound_nat) simp
  have sl: "py_slice (map g [0..<N + N - 1]) (int N - 1) (int (length (map g [0..<N + N - 1]))) =
            map g [N - 1..<N + N - 1]"
    unfolding py_slice_def Let_def length_map length_upt diff_zero lo hi
    by (simp add: drop_map)
  have re: "map g [N - 1..<N + N - 1] = map (\<lambda>k. correlate_lag x x (int k)) [0..<N]"
  proof (rule nth_equalityI)
    show "length (map g [N - 1..<N + N - 1]) = length (map (\<lambda>k. correlate_lag x x (int k)) [0..<N])"
      using N by simp
  next
    fix i assume "i < length (map g [N - 1..<N + N - 1])"
    then have i: "i < N" using N by simp
    then have "int (N - 1 + i) - (int N - 1) = int i" using N by (simp add: of_nat_diff)
    then show "map g [N - 1..<N + N - 1] ! i = map (\<lambda>k. correlate_lag x x (int k)) [0..<N] ! i"
      using i N by (simp add: g_def)
  qed
  show ?thesis
    unfolding comp_acf_def Let_def N_def[symmetric] full bind_result_Inr sl re
    by simp
qed

lemma np_sum_zeros: "(\<forall>z\<in>set zs. g z = Fin 0) \<Longrightarrow> np_sum (map g zs) = Fin 0"
  by (induction zs) simp_all

lemma correlate_lag_zeros:
  "correlate_lag (replicate n (Fin 0)) (replicate n (Fin 0)) k = Fin 0"
  unfolding correlate_lag_def
  by (rule np_sum_zeros) auto

lemma np_dot_zeros: "np_dot (replicate n (Fin 0)) (replicate n (Fin 0)) = Fin 0"
proof -
  have "np_dot (map Fin (replicate n 0)) (map Fin (replicate n 0)) = Fin 0"
    unfolding np_dot_Fin using sum_squares_zero[of "replicate n 0"] by simp
  then show ?thesis by simp
qed

lemma comp_acf_zeros:
  assumes "0 < n"
  shows "comp_acf (replicate n (Fin 0)) nrm = Inr (replicate n (if nrm then NaN else Fin 0))"
proof -
  have "replicate n (Fin 0 :: npfloat) \<noteq> []" using assms by simp
  from comp_acf_eq[OF this, of nrm] show ?thesis
    by (simp add: correlate_lag_zeros np_dot_zeros signed_inf_def map_replicate_const)
qed

lemma falling_not_rising:
  "np_less b a \<Longrightarrow> \<not> np_less (Fin 0) (np_sub b a)"
  by (cases a; cases b) (simp_all add: np_sub_def)

text \<open>
  Claim C7. The peak locator returns 0 on every vector without a strictly positive
  first difference, in particular on every strictly decreasing vector; and on an
  all-zero block of at least one sample the autocorrelation, normalised or not,
  returns a vector on which the peak locator returns 0: no exception, and no NaN in
  the result.
\<close>

theorem no_peak_gives_zero:
  "((\<forall>i. Suc i < length r \<longrightarrow> \<not> np_less (Fin 0) (np_sub (r ! Suc i) (r ! i)))
      \<longrightarrow> get_f0_from_acf r fs interpolate = Inr (Fin 0)) \<and>
   ((\<forall>i. Suc i < length r \<longrightarrow> np_less (r ! Suc i) (r ! i))
      \<longrightarrow> get_f0_from_acf r fs interpolate = Inr (Fin 0)) \<and>
   (0 < n \<longrightarrow>
      (\<exists>acf. comp_acf (replicate n (Fin 0)) nrm = Inr acf \<and>
         get_f0_from_acf acf fs interpolate = Inr (Fin 0)))"
proof (intro conjI impI)
  assume "\<forall>i. Suc i < length r \<longrightarrow> \<not> np_less (Fin 0) (np_sub (r ! Suc i) (r ! i))"
  then have "\<forall>i. \<not> rising r i" by (simp add: rising_def)
  then show "get_f0_from_acf r fs interpolate = Inr (Fin 0)" by (rule get_f0_no_peak)
next
  assume "\<forall>i. Suc i < length r \<longrightarrow> np_less (r ! Suc i) (r ! i)"
  then have "\<forall>i. \<not> rising r i" by (auto simp: rising_def dest: falling_not_rising)
  then show "get_f0_from_acf r fs interpolate = Inr (Fin 0)" by (rule get_f0_no_peak)
next
  assume n: "0 < n"
  let ?acf = "replicate n (if nrm then NaN else Fin 0)"
  have "\<forall>i. \<not> rising ?acf i" by (simp add: rising_def np_sub_def)
  then have "get_f0_from_acf ?acf fs interpolate = Inr (Fin 0)" by (rule get_f0_no_peak)
  with comp_acf_zeros[OF n, of nrm]
  show "\<exists>acf. comp_acf (replicate n (Fin 0)) nrm = Inr acf \<and>
         get_f0_from_acf acf fs interpolate = Inr (Fin 0)" by blast
qed

theorem no_peak_gives_zero_witness:
  "get_f0_from_acf [Fin 1, Fin 1] 10 False = Inr (Fin 0) \<and>
   get_f0_from_acf [Fin 3, Fin 2, Fin 1] 10 True = Inr (Fin 0) \<and>
   (\<exists>acf. comp_acf (replicate 2 (Fin 0)) True = Inr acf \<and>
      get_f0_from_acf acf 10 True = Inr (Fin 0))"
proof -
  have flat: "\<forall>i. Suc i < length [Fin 1, Fin 1] \<longrightarrow>
          \<not> np_less (Fin 0) (np_sub ([Fin 1, Fin 1] ! Suc i) ([Fin 1, Fin 1] ! i))"
    by (simp add: np_sub_def)
  have falling: "\<forall>i. Suc i < length [Fin 3, Fin 2, Fin 1] \<longrightarrow>
          np_less ([Fin 3, Fin 2, Fin 1] ! Suc i) ([Fin 3, Fin 2, Fin 1] ! i)"
    by (simp add: nth_Cons' less_Suc_eq)
  from no_peak_gives_zero[of "[Fin 1, Fin 1]" 10 False 2 True] flat
  have 1: "get_f0_from_acf [Fin 1, Fin 1] 10 False = Inr (Fin 0)" by blast
  from no_peak_gives_zero[of "[Fin 3, Fin 2, Fin 1]" 10 True 2 True] falling
  have 2: "get_f0_from_acf [Fin 3, Fin 2, Fin 1] 10 True = Inr (Fin 0)"
    and 3: "\<exists>acf. comp_acf (replicate 2 (Fin 0)) True = Inr acf \<and>
      get_f0_from_acf acf 10 True = Inr (Fin 0)" by simp_all
  from 1 2 3 show ?thesis by blast
qed

subsection \<open>Blocks without energy\<close>

lemma np_add_Fin_iff: "np_add a b = Fin s \<longleftrightarrow> (\<exists>p q. a = Fin p \<and> b = Fin q \<and> s = p + q)"
  by (cases a; cases b) auto

lemma np_square_Fin_iff: "np_mul v v = Fin p \<longleftrightarrow> (\<exists>a. v = Fin a \<and> p = a * a)"
  by (cases v) auto

lemma np_dot_self: "np_dot x x = np_sum (map (\<lambda>v. np_mul v v) x)"
  by (simp add: np_dot_def zip_same_conv_map comp_def)

lemma np_sum_squares_Fin:
  "np_sum (map (\<lambda>v. np_mul v v) x) = Fin s \<Longrightarrow>
     \<exists>xs. x = map Fin xs \<and> s = (\<Sum>a\<leftarrow>xs. a * a)"
proof (induction x arbitrary: s)
  case Nil
  then show ?case by simp
next
  case (Cons v vs)
  from Cons.prems obtain p q where v: "np_mul v v = Fin p"
    and q: "np_sum (map (\<lambda>v. np_mul v v) vs) = Fin q" and s: "s = p + q"
    by (auto simp: np_add_Fin_iff)
  from v obtain a where a: "v = Fin a" "p = a * a" by (auto simp: np_square_Fin_iff)
  from Cons.IH[OF q] obtain xs where xs: "vs = map Fin xs" "q = (\<Sum>a\<leftarrow>xs. a * a)" by blast
  have 1: "v # vs = map Fin (a # xs)" using a xs by simp
  have 2: "s = (\<Sum>c\<leftarrow>a # xs. c * c)" using a xs s by simp
  show ?case by (rule exI[of _ "a # xs"]) (use 1 2 in blast)
qed

lemma sum_list_squares_zero:
  "(\<Sum>a\<leftarrow>xs. a * a) = (0::real) \<Longrightarrow> \<forall>a\<in>set xs. a = 0"
proof (induction xs)
  case Nil
  then show ?case by simp
next
  case (Cons a xs)
  have "0 \<le> (\<Sum>a\<leftarrow>xs. a * a)" by (rule sum_list_nonneg) auto
  moreover have "0 \<le> a * a" by simp
  moreover have "a * a + (\<Sum>a\<leftarrow>xs. a * a) = 0" using Cons.prems by simp
  ultimately have "a * a = 0" "(\<Sum>a\<leftarrow>xs. a * a) = 0" by linarith+
  then show ?case using Cons.IH by simp
qed

lemma zero_energy_zeros:
  assumes "np_dot x x = Fin 0"
  shows "x = replicate (length x) (Fin 0)"
proof -
  from assms obtain xs where xs: "x = map Fin xs" "(\<Sum>a\<leftarrow>xs. a * a) = 0"
    using np_sum_squares_Fin[of x 0] by (auto simp: np_dot_self)
  from sum_list_squares_zero[OF xs(2)] have "\<forall>a\<in>set xs. a = 0" .
  then have "xs = replicate (length xs) 0" by (simp add: replicate_length_same)
  then have "map Fin xs = replicate (length xs) (Fin 0)" by (metis map_replicate)
  then show ?thesis using xs(1) by simp
qed

text \<open>
  Claim C2, as the code has it. On a block of at least one sample whose zero-lag
  energy \<^verbatim>\<open>dot(block, block)\<close> is 0, the normalised autocorrelation is a vector of
  NaN of the length of the block: every entry is \<open>0 / 0\<close>, and no guard replaces it.
\<close>

theorem comp_acf_zero_energy:
  assumes "x \<noteq> []" and "np_dot x x = Fin 0"
  shows "comp_acf x True = Inr (replicate (length x) NaN)"
proof -
  have n: "0 < length x" using assms(1) by simp
  from comp_acf_zeros[OF n, of True] zero_energy_zeros[OF assms(2)]
  show ?thesis by simp
qed

theorem comp_acf_zero_energy_witness:
  "comp_acf [Fin 0, Fin 0, Fin 0] True = Inr [NaN, NaN, NaN]"
  using comp_acf_zero_energy[of "[Fin 0, Fin 0, Fin 0]"]
  by (simp add: np_dot_def eval_nat_numeral)

text \<open>
  Claim C2, as stated, fails on the all-zero block of two samples: the result is not a
  vector of zeros.
\<close>

theorem comp_acf_silence_is_nan:
  "comp_acf [Fin 0, Fin 0] True = Inr [NaN, NaN] \<and>
   comp_acf [Fin 0, Fin 0] True \<noteq> Inr [Fin 0, Fin 0]"
  using comp_acf_zeros[of 2 True] by (simp add: eval_nat_numeral)

subsection \<open>Scaling a signal\<close>









subsection \<open>Arguments that the specification rejects\<close>










subsection \<open>Contour conditioning\<close>

text \<open>
  Claim C1 does not hold of the code. \<^verbatim>\<open>track_vibrato_freq\<close> passes the builtin
  \<^verbatim>\<open>filter\<close>, which is true, where \<^verbatim>\<open>params.filter\<close> was meant: its result does not
  depend on the \<open>filter\<close> field, and the contour it analyses is always the median
  filtered and low-pass filtered one.
\<close>

theorem track_vibrato_freq_always_filters:
  "track_vibrato_freq sp x (params\<lparr>p_filter := False\<rparr>) =
     track_vibrato_freq sp x (params\<lparr>p_filter := True\<rparr>) \<and>
   compute_processed_f0 sp x block_size hop_size fs (PyBuiltin ''filter'') interpolate =
     compute_processed_f0 sp x block_size hop_size fs (PyBool True) interpolate \<and>
   compute_processed_f0 sp x block_size hop_size fs (PyBuiltin ''filter'') interpolate =
     bind_result (track_pitch_acf x block_size hop_size fs interpolate) (\<lambda>(f0, t).
     bind_result (vibrato_fs fs hop_size) (\<lambda>acf_fs.
       Inr (vibrato_lpf sp (median_filter sp (fst (remove_mean f0)) 3) acf_fs 20, acf_fs)))"
  by (simp add: track_vibrato_freq_def compute_processed_f0_def Let_def)

subsection \<open>The search slice of an autocorrelation is never empty\<close>

lemma product_below_squares: "b * a \<le> a * a + b * (b::real)"
proof -
  have "0 \<le> (a - b) * (a - b)" by simp
  then have "0 \<le> a * a - 2 * (b * a) + b * b" by (simp add: algebra_simps)
  moreover have "0 \<le> a * a" "0 \<le> b * b" by simp_all
  ultimately show ?thesis by linarith
qed

lemma correlate_pair_0:
  "correlate_lag [a, b] [a, b] 0 = np_add (np_mul a a) (np_add (np_mul b b) (Fin 0))"
  by (simp add: correlate_lag_def)

lemma correlate_pair_1:
  "correlate_lag [a, b] [a, b] 1 = np_add (np_mul b a) (Fin 0)"
  by (simp add: correlate_lag_def)

lemma comp_acf_pair:
  "comp_acf [a, b] nrm =
     Inr [np_div (np_add (np_mul a a) (np_add (np_mul b b) (Fin 0)))
            (if nrm then np_add (np_mul a a) (np_add (np_mul b b) (Fin 0)) else Fin 1),
          np_div (np_add (np_mul b a) (Fin 0))
            (if nrm then np_add (np_mul a a) (np_add (np_mul b b) (Fin 0)) else Fin 1)]"
proof -
  have "[a, b] \<noteq> []" by simp
  from comp_acf_eq[OF this, of nrm] show ?thesis
    by (simp add: correlate_pair_0 correlate_pair_1 np_dot_def upt_rec[of 0] upt_rec[of 1])
qed


lemma comp_acf_pair_not_rising:
  assumes "comp_acf [a, b] nrm = Inr r"
  shows "\<not> rising r 0"
proof -
  define e where "e = np_add (np_mul a a) (np_add (np_mul b b) (Fin 0))"
  define c where "c = np_add (np_mul b a) (Fin 0)"
  define n where "n = (if nrm then e else Fin 1)"
  have r: "r = [np_div e n, np_div c n]"
    using assms unfolding comp_acf_pair e_def c_def n_def by simp
  have "\<not> np_less (Fin 0) (np_sub (np_div c n) (np_div e n))"
  proof (cases a)
    case (Fin p)
    note a = this
    show ?thesis
    proof (cases b)
      case (Fin q)
      define E where "E = p * p + q * q"
      have le: "q * p \<le> E" unfolding E_def by (rule product_below_squares)
      have nn: "0 \<le> E" unfolding E_def by simp
      have e: "e = Fin E" and c: "c = Fin (q * p)"
        by (simp_all add: e_def c_def E_def a Fin)
      show ?thesis
      proof (cases nrm)
        case True
        then have n: "n = Fin E" by (simp add: n_def e)
        show ?thesis
        proof (cases "E = 0")
          case z: True
          then show ?thesis by (simp add: e c n np_sub_def signed_inf_def)
        next
          case nz: False
          with nn have pos: "0 < E" by linarith
          have "q * p / E \<le> 1" using le pos by (simp add: divide_le_eq)
          moreover have "np_div c n = Fin (q * p / E)" "np_div e n = Fin 1"
            using nz by (simp_all add: e c n)
          ultimately show ?thesis by (simp add: np_sub_def)
        qed
      next
        case False
        then have n: "n = Fin 1" by (simp add: n_def)
        show ?thesis using le by (simp add: e c n np_sub_def)
      qed
    qed (auto simp: a e_def c_def n_def np_sub_def signed_inf_def)
  qed (cases b; auto simp: e_def c_def n_def np_sub_def signed_inf_def)+
  then show ?thesis by (simp add: rising_def r)
qed

lemma comp_acf_length: "comp_acf x nrm = Inr r \<Longrightarrow> length r = length x \<and> x \<noteq> []"
proof (cases "x = []")
  case True
  assume "comp_acf x nrm = Inr r"
  with True show ?thesis by simp
next
  case False
  assume "comp_acf x nrm = Inr r"
  with comp_acf_eq[OF False, of nrm] False show ?thesis by auto
qed

lemma comp_acf_search_nonempty:
  assumes "comp_acf x nrm = Inr r" and "rising r i" and "\<forall>j<i. \<not> rising r j"
  shows "max 1 i + 1 < length r"
proof (cases "i = 0")
  case False
  from assms(2) have "Suc i < length r" by (simp add: rising_def)
  with False show ?thesis by simp
next
  case True
  from assms(2) True have l: "2 \<le> length r" by (simp add: rising_def)
  have "length r \<noteq> 2"
  proof
    assume "length r = 2"
    then have "length x = 2" using comp_acf_length[OF assms(1)] by simp
    then obtain a b where "x = [a, b]"
      by (cases x; simp) (metis length_0_conv length_Suc_conv)
    with assms(1) have "\<not> rising r 0" using comp_acf_pair_not_rising by blast
    with assms(2) True show False by simp
  qed
  with l True show ?thesis by simp
qed

text \<open>The normalised autocorrelation of the block \<open>1, -1, 1\<close>.\<close>

lemma acf_example:
  "comp_acf [Fin 1, Fin (- 1), Fin 1] True = Inr [Fin 1, Fin (- 2 / 3), Fin (1 / 3)]"
proof -
  have "[Fin 1, Fin (- 1), Fin 1] \<noteq> []" by simp
  from comp_acf_eq[OF this, of True] show ?thesis
    by (simp add: correlate_lag_def np_dot_def upt_rec[of 0] upt_rec[of 1] upt_rec[of 2])
qed

text \<open>
  Claim C5. Let \<open>r\<close> be an autocorrelation vector, that is a result of \<^verbatim>\<open>comp_acf\<close> (or
  any vector of three or more entries), and let \<open>i\<close> be the index of its first strictly
  positive first difference. Then the peak locator searches from \<open>cutoff = max 1 i\<close>:
  its lag is \<open>f = argmax (r[cutoff + 1:]) + cutoff + 1\<close>, an index of the vector; with
  interpolation the quadratic offset of \<open>r[f - 1]\<close>, \<open>r[f]\<close> and \<open>r[f + 1]\<close> (or \<open>r[f]\<close>
  again when \<open>f\<close> is the last index) is added; and the result is the sample rate
  divided by that lag. The one vector shape left out, two entries with \<open>r[1] > r[0]\<close>,
  is not an autocorrelation (\<open>comp_acf_pair_not_rising\<close>).
\<close>

theorem get_f0_from_acf_peak:
  assumes "Suc i < length r"
    and "np_less (Fin 0) (np_sub (r ! Suc i) (r ! i))"
    and "\<forall>j<i. \<not> np_less (Fin 0) (np_sub (r ! Suc j) (r ! j))"
    and "(\<exists>x nrm. comp_acf x nrm = Inr r) \<or> 2 < length r"
  shows "\<exists>m f. np_argmax (drop (max 1 i + 1) r) = Inr m \<and>
           f = m + max 1 i + 1 \<and> f < length r \<and>
           get_f0_from_acf r fs interpolate =
             Inr (np_div (Fin fs)
               (if interpolate
                then np_add (Fin (real f))
                       (quadratic_interp (r ! (f - 1)) (r ! f)
                          (if f + 1 = length r then r ! f else r ! (f + 1)))
                else Fin (real f)))"
proof -
  have ri: "rising r i" using assms(1,2) by (simp add: rising_def)
  have first: "\<forall>j<i. \<not> rising r j" using assms(3) by (simp add: rising_def)
  have "max 1 i + 1 < length r"
    using assms(4)
  proof
    assume "\<exists>x nrm. comp_acf x nrm = Inr r"
    then obtain x nrm where "comp_acf x nrm = Inr r" by blast
    from comp_acf_search_nonempty[OF this ri first] show ?thesis .
  next
    assume "2 < length r"
    with assms(1) show ?thesis by simp
  qed
  then have "drop (max 1 i + 1) r \<noteq> []" by simp
  from np_argmax_nonempty[OF this] obtain m
    where m: "np_argmax (drop (max 1 i + 1) r) = Inr m"
      and ml: "m < length (drop (max 1 i + 1) r)" by blast
  have fl: "m + max 1 i + 1 < length r" using ml by simp
  have "get_f0_from_acf r fs interpolate =
          Inr (np_div (Fin fs) (refined_lag r interpolate (m + max 1 i + 1)))"
    unfolding get_f0_search[OF ri first] m by simp
  then show ?thesis using m fl unfolding refined_lag_def by blast
qed

theorem get_f0_from_acf_peak_witness:
  "comp_acf [Fin 1, Fin (- 1), Fin 1] True = Inr [Fin 1, Fin (- 2 / 3), Fin (1 / 3)] \<and>
   np_argmax (drop 2 [Fin 1, Fin (- 2 / 3), Fin (1 / 3)]) = Inr 0 \<and>
   get_f0_from_acf [Fin 1, Fin (- 2 / 3), Fin (1 / 3)] 5 True = Inr (Fin 2)"
proof -
  let ?r = "[Fin 1, Fin (- 2 / 3), Fin (1 / 3)]"
  have c: "comp_acf [Fin 1, Fin (- 1), Fin 1] True = Inr ?r" by (rule acf_example)
  have a: "np_argmax (drop 2 ?r) = Inr 0"
    by (simp add: np_argmax_def)
  have h: "Suc 1 < length ?r" "np_less (Fin 0) (np_sub (?r ! Suc 1) (?r ! 1))"
    "\<forall>j<1. \<not> np_less (Fin 0) (np_sub (?r ! Suc j) (?r ! j))"
    "(\<exists>x nrm. comp_acf x nrm = Inr ?r) \<or> 2 < length ?r"
    using c by (simp_all add: np_sub_def)
  from get_f0_from_acf_peak[OF h, of 5 True] a
  have "get_f0_from_acf ?r 5 True =
      Inr (np_div (Fin 5) (np_add (Fin 2) (quadratic_interp (?r ! 1) (?r ! 2) (?r ! 2))))"
    by (simp add: eval_nat_numeral)
  then show ?thesis using a c
    by (simp add: quadratic_interp_def np_sub_def eval_nat_numeral)
qed






subsection \<open>Windowed rate estimation\<close>









end
